theory Spec2Isabelle
  imports Main "HOL-Library.Word" "HOL-Library.AList"
begin

section \<open>The device registry of libusb_device_manager\<close>

text \<open>
  The registry \<open>m_connected_devices\<close> is a \<open>std::map<unsigned int, connected_device>\<close>.
  It is modelled as an association list kept in strictly increasing key order, which is
  the order the range-for loops of the source visit it in. A \<open>libusb_device*\<close> is
  modelled by a natural number standing for the identity of the pointer.
\<close>

type_synonym device_id = "32 word"

type_synonym native_handle = nat

text \<open>
  Modelled from the spec: \<open>build_linkmasta_device\<close> is declared in the header of the
  manager, which is not among the sources. The spec says that a new entry gets a
  transport/device object constructed once for the physical connection; the object is
  modelled by the native device it is built around.
\<close>

datatype linkmasta_device = Linkmasta_Device native_handle

definition build_linkmasta_device :: "native_handle \<Rightarrow> linkmasta_device" where
  "build_linkmasta_device h = Linkmasta_Device h"

text \<open>
  The struct \<open>connected_device\<close> is declared in the header of the manager, which is not
  among the sources. Its fields are the ones that \<open>refresh_device_list\<close> fills, with the
  types of the accessors' results; the field \<open>id\<close> is called \<open>id_field\<close> here.
\<close>

record connected_device =
  id_field :: device_id
  vendor_id :: "32 word"
  product_id :: "32 word"
  device :: native_handle
  claimed :: bool
  manufacturer_string :: string
  product_string :: string
  serial_number :: string
  linkmasta :: linkmasta_device

text \<open>
  One element of the list that \<open>libusb_get_device_list\<close> returns: the pointer
  \<open>device_list[i]\<close>, the two identifiers of its descriptor, and the strings that the
  transient \<open>libusb_usb_device\<close> reads from it.
\<close>

record bus_device =
  dev_ptr :: native_handle
  idVendor :: "16 word"
  idProduct :: "16 word"
  usb_manufacturer_string :: string
  usb_product_string :: string
  usb_serial_number :: string

text \<open>\<open>std::invalid_argument("Unknown connected device ID " + std::to_string(id))\<close>\<close>

datatype error = Invalid_Argument device_id

text \<open>
  The members of the manager. The two mutexes are flags (\<open>True\<close> when held); the model
  is sequential, so an operation starts with the mutex it takes free.
  The field \<open>next_id\<close> belongs to the model of \<open>generate_id\<close> below.
\<close>

record manager =
  m_libusb_init :: bool
  m_libusb_mutex :: bool
  m_connected_devices_mutex :: bool
  m_connected_devices :: "(device_id \<times> connected_device) list"
  next_id :: device_id

text \<open>
  Modelled from the spec: \<open>generate_id\<close> is a member of the base class
  \<open>device_manager\<close>, which is not among the sources. The spec says that a new entry is
  given a fresh surrogate id. It is modelled as a counter that is handed out and
  advanced; that the ids handed out during a pass are not in use is a hypothesis
  (\<open>ids_fresh\<close>) wherever a theorem depends on it.
\<close>

definition generate_id :: "device_id \<Rightarrow> device_id \<times> device_id" where
  "generate_id n = (n, n + 1)"

subsection \<open>Accessors\<close>

definition lock_connected_devices :: "manager \<Rightarrow> manager" where
  "lock_connected_devices s = s\<lparr>m_connected_devices_mutex := True\<rparr>"

definition unlock_connected_devices :: "manager \<Rightarrow> manager" where
  "unlock_connected_devices s = s\<lparr>m_connected_devices_mutex := False\<rparr>"

definition get_vendor_id :: "device_id \<Rightarrow> manager \<Rightarrow> (error + 32 word) \<times> manager" where
  "get_vendor_id i s =
     (let s1 = lock_connected_devices s in
      case map_of (m_connected_devices s1) i of
        None \<Rightarrow> (Inl (Invalid_Argument i), unlock_connected_devices s1)
      | Some d \<Rightarrow> (Inr (vendor_id d), unlock_connected_devices s1))"

definition get_product_id :: "device_id \<Rightarrow> manager \<Rightarrow> (error + 32 word) \<times> manager" where
  "get_product_id i s =
     (let s1 = lock_connected_devices s in
      case map_of (m_connected_devices s1) i of
        None \<Rightarrow> (Inl (Invalid_Argument i), unlock_connected_devices s1)
      | Some d \<Rightarrow> (Inr (product_id d), unlock_connected_devices s1))"

definition get_manufacturer_string :: "device_id \<Rightarrow> manager \<Rightarrow> (error + string) \<times> manager" where
  "get_manufacturer_string i s =
     (let s1 = lock_connected_devices s in
      case map_of (m_connected_devices s1) i of
        None \<Rightarrow> (Inl (Invalid_Argument i), unlock_connected_devices s1)
      | Some d \<Rightarrow> (Inr (manufacturer_string d), unlock_connected_devices s1))"

definition get_product_string :: "device_id \<Rightarrow> manager \<Rightarrow> (error + string) \<times> manager" where
  "get_product_string i s =
     (let s1 = lock_connected_devices s in
      case map_of (m_connected_devices s1) i of
        None \<Rightarrow> (Inl (Invalid_Argument i), unlock_connected_devices s1)
      | Some d \<Rightarrow> (Inr (product_string d), unlock_connected_devices s1))"

definition get_serial_number :: "device_id \<Rightarrow> manager \<Rightarrow> (error + string) \<times> manager" where
  "get_serial_number i s =
     (let s1 = lock_connected_devices s in
      case map_of (m_connected_devices s1) i of
        None \<Rightarrow> (Inl (Invalid_Argument i), unlock_connected_devices s1)
      | Some d \<Rightarrow> (Inr (serial_number d), unlock_connected_devices s1))"

definition get_linkmasta_device ::
  "device_id \<Rightarrow> manager \<Rightarrow> (error + linkmasta_device) \<times> manager" where
  "get_linkmasta_device i s =
     (let s1 = lock_connected_devices s in
      case map_of (m_connected_devices s1) i of
        None \<Rightarrow> (Inl (Invalid_Argument i), unlock_connected_devices s1)
      | Some d \<Rightarrow> (Inr (linkmasta d), unlock_connected_devices s1))"

definition is_device_claimed :: "device_id \<Rightarrow> manager \<Rightarrow> (error + bool) \<times> manager" where
  "is_device_claimed i s =
     (let s1 = lock_connected_devices s in
      case map_of (m_connected_devices s1) i of
        None \<Rightarrow> (Inl (Invalid_Argument i), unlock_connected_devices s1)
      | Some d \<Rightarrow> (Inr (claimed d), unlock_connected_devices s1))"

subsection \<open>Claiming and releasing\<close>

text \<open>
  \<open>it->second.claimed = ...\<close> writes the entry in place: \<open>AList.map_entry\<close> rewrites the
  value stored under the key and leaves the list as it is when the key is absent.
\<close>

definition try_claim_device :: "device_id \<Rightarrow> manager \<Rightarrow> (error + bool) \<times> manager" where
  "try_claim_device i s =
     (let s1 = lock_connected_devices s in
      case map_of (m_connected_devices s1) i of
        None \<Rightarrow> (Inl (Invalid_Argument i), unlock_connected_devices s1)
      | Some d \<Rightarrow>
          (let r = claimed d;
               s2 = s1\<lparr>m_connected_devices :=
                      AList.map_entry i (\<lambda>e. e\<lparr>claimed := True\<rparr>) (m_connected_devices s1)\<rparr>
           in (Inr (\<not> r), unlock_connected_devices s2)))"

definition release_device :: "device_id \<Rightarrow> manager \<Rightarrow> (error + unit) \<times> manager" where
  "release_device i s =
     (let s1 = lock_connected_devices s in
      case map_of (m_connected_devices s1) i of
        None \<Rightarrow> (Inl (Invalid_Argument i), unlock_connected_devices s1)
      | Some d \<Rightarrow>
          (let s2 = s1\<lparr>m_connected_devices :=
                      AList.map_entry i (\<lambda>e. e\<lparr>claimed := False\<rparr>) (m_connected_devices s1)\<rparr>
           in (Inr (), unlock_connected_devices s2)))"

subsection \<open>Reconciliation\<close>

text \<open>
  \<open>m[k] = v\<close> on a \<open>std::map\<close>: the value under an existing key is replaced, a new key
  is entered at its place in the key order.
\<close>

fun map_assign :: "'k::linorder \<Rightarrow> 'v \<Rightarrow> ('k \<times> 'v) list \<Rightarrow> ('k \<times> 'v) list" where
  "map_assign k v [] = [(k, v)]"
| "map_assign k v ((a, b) # xs) =
     (if k < a then (k, v) # (a, b) # xs
      else if k = a then (k, v) # xs
      else (a, b) # map_assign k v xs)"

definition is_supported :: "32 word \<Rightarrow> 32 word \<Rightarrow> bool" where
  "is_supported vendor product =
     ((vendor = 0x20A0 \<and> product = 0x4178)
      \<or> (vendor = 0x20A0 \<and> product = 0x4256)
      \<or> (vendor = 0x20A0 \<and> product = 0x4252))"

text \<open>
  \<open>is_supported(desc.idVendor, desc.idProduct)\<close>: the 16-bit identifiers of the
  descriptor are widened to \<open>unsigned int\<close>.
\<close>

abbreviation supported :: "bus_device \<Rightarrow> bool" where
  "supported u \<equiv> is_supported (ucast (idVendor u)) (ucast (idProduct u))"

text \<open>The first loop: every entry of the registry is marked as not found.\<close>

definition mark_not_found ::
  "(device_id \<times> connected_device) list \<Rightarrow> (device_id \<times> bool) list" where
  "mark_not_found reg = foldl (\<lambda>status entry. map_assign (fst entry) False status) [] reg"

text \<open>
  The inner loop over the registry: the first entry in key order whose native handle is
  the pointer looked for, if there is one.
\<close>

fun find_known ::
  "native_handle \<Rightarrow> (device_id \<times> connected_device) list \<Rightarrow> device_id option" where
  "find_known h [] = None"
| "find_known h ((k, d) # entries) = (if device d = h then Some k else find_known h entries)"

definition new_connected_device :: "device_id \<Rightarrow> bus_device \<Rightarrow> connected_device" where
  "new_connected_device n u =
     \<lparr>id_field = n,
      vendor_id = ucast (idVendor u),
      product_id = ucast (idProduct u),
      device = dev_ptr u,
      claimed = False,
      manufacturer_string = usb_manufacturer_string u,
      product_string = usb_product_string u,
      serial_number = usb_serial_number u,
      linkmasta = build_linkmasta_device (dev_ptr u)\<rparr>"

text \<open>
  The body of the loop over the device list, on the registry, the status map and the
  id counter.
\<close>

type_synonym scan_state =
  "(device_id \<times> connected_device) list \<times> (device_id \<times> bool) list \<times> device_id"

definition visit_device :: "bus_device \<Rightarrow> scan_state \<Rightarrow> scan_state" where
  "visit_device u st =
     (case st of (reg, status, n) \<Rightarrow>
        if \<not> supported u then (reg, status, n)
        else (case find_known (dev_ptr u) reg of
                Some k \<Rightarrow> (reg, map_assign k True status, n)
              | None \<Rightarrow>
                  (case generate_id n of (new_id, n') \<Rightarrow>
                     (map_assign new_id (new_connected_device new_id u) reg, status, n'))))"

fun scan_devices :: "bus_device list \<Rightarrow> scan_state \<Rightarrow> scan_state" where
  "scan_devices [] st = st"
| "scan_devices (u # us) st = scan_devices us (visit_device u st)"

text \<open>
  \<open>m_connected_devices[k].claimed\<close> in the last loop. On a key that is absent
  \<open>operator[]\<close> enters a value-initialised entry, whose flag is false, and the
  \<open>erase\<close> that follows takes it out again; the model reads false and deletes nothing.
\<close>

definition entry_claimed :: "(device_id \<times> connected_device) list \<Rightarrow> device_id \<Rightarrow> bool" where
  "entry_claimed reg k = (case map_of reg k of None \<Rightarrow> False | Some d \<Rightarrow> claimed d)"

fun remove_not_found ::
  "(device_id \<times> bool) list \<Rightarrow> (device_id \<times> connected_device) list
     \<Rightarrow> (device_id \<times> connected_device) list" where
  "remove_not_found [] reg = reg"
| "remove_not_found ((k, found) # status) reg =
     remove_not_found status
       (if \<not> found \<and> \<not> entry_claimed reg k then AList.delete k reg else reg)"

text \<open>
  The registry and the status map as the loop over the device list leaves them, before
  the removal loop runs.
\<close>

definition scan_bus :: "bus_device list \<Rightarrow> manager \<Rightarrow> scan_state" where
  "scan_bus device_list s =
     scan_devices device_list
       (m_connected_devices s, mark_not_found (m_connected_devices s), next_id s)"



text \<open>
  \<open>refresh_device_list\<close>. The list that \<open>libusb_get_device_list\<close> returns is a
  parameter; a failed enumeration (a negative count) runs the loop zero times, as the
  empty list does. The reference counts of the native handles are not modelled, and the
  transient open of a new device is taken to succeed.
\<close>

definition refresh_device_list :: "bus_device list \<Rightarrow> manager \<Rightarrow> manager" where
  "refresh_device_list device_list s =
     (let s1 = s\<lparr>m_libusb_mutex := True\<rparr> in
      if \<not> m_libusb_init s1 then s1\<lparr>m_libusb_mutex := False\<rparr>
      else
        (let s2 = lock_connected_devices s1 in
         case scan_bus device_list s2 of (reg, device_status, n) \<Rightarrow>
           (unlock_connected_devices
              (s2\<lparr>m_connected_devices := remove_not_found device_status reg, next_id := n\<rparr>))
           \<lparr>m_libusb_mutex := False\<rparr>))"

subsection \<open>Invariants of the registry\<close>

text \<open>
  A \<open>std::map\<close> holds its keys in strictly increasing order, and no two entries of the
  registry hold the same native handle.
\<close>

definition registry_ok :: "manager \<Rightarrow> bool" where
  "registry_ok s =
     (sorted_wrt (<) (map fst (m_connected_devices s))
      \<and> distinct (map (\<lambda>e. device (snd e)) (m_connected_devices s)))"

text \<open>
  The ids in use lie below the counter, and handing out \<open>n\<close> more ids does not wrap
  the counter around.
\<close>

definition ids_fresh :: "nat \<Rightarrow> manager \<Rightarrow> bool" where
  "ids_fresh n s =
     (list_all (\<lambda>e. unat (fst e) < unat (next_id s)) (m_connected_devices s)
      \<and> unat (next_id s) + n < 2 ^ 32)"

text \<open>An entry is seen in a pass when a supported device of the list has its handle.\<close>

definition seen_on_bus :: "bus_device list \<Rightarrow> connected_device \<Rightarrow> bool" where
  "seen_on_bus device_list d =
     list_ex (\<lambda>u. supported u \<and> dev_ptr u = device d) device_list"

text \<open>
  A sequence of passes, each over the device list the bus shows at that moment, as the
  background refresh runs them one after another.
\<close>

fun refresh_passes :: "bus_device list list \<Rightarrow> manager \<Rightarrow> manager" where
  "refresh_passes [] s = s"
| "refresh_passes (bus # buses) s = refresh_passes buses (refresh_device_list bus s)"

text \<open>
  The invariant of the loop over the device list, with \<open>m\<close> ids still to spare: the
  registry has the shape of \<open>registry_ok\<close>, its keys lie below the counter, and the
  counter can still hand out \<open>m\<close> ids without wrapping.
\<close>

definition scan_ok :: "nat \<Rightarrow> scan_state \<Rightarrow> bool" where
  "scan_ok m st =
     (case st of (reg, status, n) \<Rightarrow>
        sorted_wrt (<) (map fst reg)
        \<and> distinct (map (\<lambda>e. device (snd e)) reg)
        \<and> list_all (\<lambda>e. unat (fst e) < unat n) reg
        \<and> unat n + m < 2 ^ 32)"

section \<open>The belief state of ngp_chip\<close>

text \<open>
  The enumeration \<open>chip_mode\<close> and the data members are those of \<open>ngp_chip.h\<close>; the
  constant members \<open>m_linkmasta\<close> and \<open>m_chip_num\<close> play no part below and are left out.
\<close>

datatype chip_mode = READ | AUTOSELECT | BYPASS | ERASE

record ngp_chip =
  m_mode :: chip_mode
  m_last_erased_addr :: "32 word"
  m_supports_bypass :: bool

text \<open>
  Modelled from the spec: the implementation file of \<open>ngp_chip\<close> is not among the
  sources, only its header. By section 4.2 of the spec \<open>erase_chip\<close> issues the
  full-chip erase command sequence and sets the belief state to \<open>ERASE\<close>; the header
  says that it causes the device to enter \<open>chip_mode::ERASE\<close>. The command sequence
  goes to the transport and leaves no trace in the controller.
\<close>

definition erase_chip :: "ngp_chip \<Rightarrow> ngp_chip" where
  "erase_chip c = c\<lparr>m_mode := ERASE\<rparr>"

text \<open>
  Modelled from the spec: \<open>erase_block\<close> issues the single-sector erase command
  sequence and sets the belief state to \<open>ERASE\<close>; \<open>m_last_erased_addr\<close> keeps the
  last block-erase target.
\<close>

definition erase_block :: "32 word \<Rightarrow> ngp_chip \<Rightarrow> ngp_chip" where
  "erase_block block_address c = c\<lparr>m_mode := ERASE, m_last_erased_addr := block_address\<rparr>"

text \<open>
  Modelled from the spec: \<open>current_mode\<close> and \<open>is_erasing\<close> return the last belief
  state without touching the hardware. The header declares both as \<open>const\<close> member
  functions: they read the controller and cannot change it.
\<close>

definition current_mode :: "ngp_chip \<Rightarrow> chip_mode" where
  "current_mode c = m_mode c"

definition is_erasing :: "ngp_chip \<Rightarrow> bool" where
  "is_erasing c = (m_mode c = ERASE)"

text \<open>
  Modelled from the spec: \<open>test_erasing\<close> performs the completion poll on the hardware
  and sets the belief state to \<open>READ\<close> once the poll indicates completion. The outcome
  of the poll is the parameter \<open>completed\<close>; the result says whether the chip is still
  erasing, as the header describes the function.
\<close>

definition test_erasing :: "bool \<Rightarrow> ngp_chip \<Rightarrow> bool \<times> ngp_chip" where
  "test_erasing completed c =
     (if completed then (False, c\<lparr>m_mode := READ\<rparr>) else (True, c))"

text \<open>
  A caller's sequence of status calls after an erase command. The two \<open>const\<close>
  functions leave the controller as it is.
\<close>

datatype chip_call = Is_Erasing | Current_Mode | Test_Erasing bool

fun chip_step :: "chip_call \<Rightarrow> ngp_chip \<Rightarrow> ngp_chip" where
  "chip_step Is_Erasing c = c"
| "chip_step Current_Mode c = c"
| "chip_step (Test_Erasing completed) c = snd (test_erasing completed c)"

fun chip_run :: "chip_call list \<Rightarrow> ngp_chip \<Rightarrow> ngp_chip" where
  "chip_run [] c = c"
| "chip_run (call # calls) c = chip_run calls (chip_step call c)"

section \<open>Example states\<close>

text \<open>
  A supported Neo Geo Pocket programmer, a device that is not on the allow-list, the
  manager as its constructor leaves it, and a manager that holds a claimed and an
  unclaimed entry.
\<close>

definition ngp_linkmasta :: bus_device where
  "ngp_linkmasta =
     \<lparr>dev_ptr = 1, idVendor = 0x20A0, idProduct = 0x4178,
      usb_manufacturer_string = ''7400 Circuits'', usb_product_string = ''Linkmasta'',
      usb_serial_number = ''0001''\<rparr>"

definition usb_keyboard :: bus_device where
  "usb_keyboard =
     \<lparr>dev_ptr = 2, idVendor = 0x046D, idProduct = 0xC31C,
      usb_manufacturer_string = ''Keys'', usb_product_string = ''Keyboard'',
      usb_serial_number = ''0003''\<rparr>"

definition started_manager :: manager where
  "started_manager =
     \<lparr>m_libusb_init = True, m_libusb_mutex = False, m_connected_devices_mutex = False,
      m_connected_devices = [], next_id = 0\<rparr>"

definition claimed_entry :: connected_device where
  "claimed_entry = (new_connected_device 0 ngp_linkmasta)\<lparr>claimed := True\<rparr>"

definition free_entry :: connected_device where
  "free_entry =
     \<lparr>id_field = 1, vendor_id = 0x20A0, product_id = 0x4252, device = 3, claimed = False,
      manufacturer_string = ''7400 Circuits'', product_string = ''WS Linkmasta'',
      serial_number = ''0002'', linkmasta = Linkmasta_Device 3\<rparr>"

definition busy_manager :: manager where
  "busy_manager = started_manager\<lparr>m_connected_devices := [(0, claimed_entry), (1, free_entry)],
     next_id := 2\<rparr>"



section \<open>Properties of the registry operations\<close>

lemmas accessor_defs =
  lock_connected_devices_def unlock_connected_devices_def

lemma map_of_map_assign: "map_of (map_assign k v xs) = (map_of xs)(k \<mapsto> v)"
  by (induction xs) (auto simp: fun_eq_iff)

lemma keys_map_assign: "fst ` set (map_assign k v xs) = insert k (fst ` set xs)"
proof -
  have "dom (map_of (map_assign k v xs)) = insert k (dom (map_of xs))"
    by (simp add: map_of_map_assign)
  then show ?thesis by (simp add: dom_map_of_conv_image_fst)
qed

lemma sorted_map_assign:
  "sorted_wrt (<) (map fst xs) \<Longrightarrow> sorted_wrt (<) (map fst (map_assign k v xs))"
proof (induction xs)
  case Nil
  then show ?case by simp
next
  case (Cons e xs)
  obtain a b where e: "e = (a, b)" by (cases e)
  from Cons.prems have tl: "sorted_wrt (<) (map fst xs)" and hd: "\<forall>x\<in>set xs. a < fst x"
    by (auto simp: e)
  show ?case
  proof (cases "k < a")
    case True
    with Cons.prems hd show ?thesis by (auto simp: e)
  next
    case False
    show ?thesis
    proof (cases "k = a")
      case True
      with Cons.prems show ?thesis by (simp add: e)
    next
      case ne: False
      with False have "a < k" by simp
      moreover have "fst ` set (map_assign k v xs) = insert k (fst ` set xs)"
        by (rule keys_map_assign)
      ultimately have "\<forall>x\<in>set (map_assign k v xs). a < fst x"
        using hd by (metis imageE imageI insertE)
      with Cons.IH [OF tl] False ne show ?thesis by (simp add: e)
    qed
  qed
qed

lemma map_of_mark_not_found_aux:
  "map_of (foldl (\<lambda>status entry. map_assign (fst entry) False status) acc reg) k
     = (if k \<in> fst ` set reg then Some False else map_of acc k)"
  by (induction reg arbitrary: acc) (auto simp: map_of_map_assign)

lemma map_of_mark_not_found:
  "map_of (mark_not_found reg) k = (if k \<in> fst ` set reg then Some False else None)"
  by (simp add: mark_not_found_def map_of_mark_not_found_aux)

lemma sorted_mark_not_found_aux:
  "sorted_wrt (<) (map fst acc) \<Longrightarrow>
   sorted_wrt (<) (map fst (foldl (\<lambda>status entry. map_assign (fst entry) False status) acc reg))"
  by (induction reg arbitrary: acc) (auto simp: sorted_map_assign)

lemma sorted_mark_not_found: "sorted_wrt (<) (map fst (mark_not_found reg))"
  by (simp add: mark_not_found_def sorted_mark_not_found_aux)

lemma find_known_None: "find_known h reg = None \<longleftrightarrow> (\<forall>e\<in>set reg. device (snd e) \<noteq> h)"
  by (induction reg) (auto split: if_splits)

lemma find_known_Some: "find_known h reg = Some k \<Longrightarrow> \<exists>d. (k, d) \<in> set reg \<and> device d = h"
proof (induction reg)
  case Nil
  then show ?case by simp
next
  case (Cons e reg)
  obtain a b where e: "e = (a, b)" by (cases e)
  show ?case
  proof (cases "device b = h")
    case True
    with Cons.prems have "k = a" by (simp add: e)
    with True show ?thesis by (auto simp: e)
  next
    case False
    with Cons.prems have "find_known h reg = Some k" by (simp add: e)
    from Cons.IH [OF this] show ?thesis by auto
  qed
qed

lemma find_known_unique:
  "distinct (map (\<lambda>e. device (snd e)) reg) \<Longrightarrow> (k, d) \<in> set reg \<Longrightarrow> device d = h
   \<Longrightarrow> find_known h reg = Some k"
proof (induction reg)
  case Nil
  then show ?case by simp
next
  case (Cons e reg)
  obtain a b where e: "e = (a, b)" by (cases e)
  show ?case
  proof (cases "(k, d) = (a, b)")
    case True
    with Cons.prems show ?thesis by (simp add: e)
  next
    case False
    with Cons.prems have mem: "(k, d) \<in> set reg" by (auto simp: e)
    with Cons.prems have "device b \<noteq> h" by (force simp: e)
    moreover from Cons.prems have "distinct (map (\<lambda>e. device (snd e)) reg)" by simp
    ultimately show ?thesis using Cons.IH mem Cons.prems(3) by (simp add: e)
  qed
qed

lemma sorted_keys_distinct:
  fixes xs :: "('k::linorder \<times> 'v) list"
  shows "sorted_wrt (<) (map fst xs) \<Longrightarrow> distinct (map fst xs)"
  by (simp add: strict_sorted_iff)

lemma map_of_remove_not_found:
  "map_of (remove_not_found status reg) k
     = (if (k, False) \<in> set status \<and> \<not> entry_claimed reg k then None else map_of reg k)"
proof (induction status arbitrary: reg)
  case Nil
  then show ?case by simp
next
  case (Cons e status)
  obtain a f where e: "e = (a, f)" by (cases e)
  show ?case
    by (auto simp: e Cons.IH delete_conv' entry_claimed_def split: option.splits)
qed

lemma remove_not_found_same:
  "\<forall>e\<in>set status. snd e \<or> entry_claimed reg (fst e) \<Longrightarrow> remove_not_found status reg = reg"
  by (induction status arbitrary: reg) auto

lemma remove_not_found_filter: "\<exists>P. remove_not_found status reg = filter P reg"
proof (induction status arbitrary: reg)
  case Nil
  have "reg = filter (\<lambda>_. True) reg" by simp
  then show ?case by (metis remove_not_found.simps(1))
next
  case (Cons e status)
  obtain a f where e: "e = (a, f)" by (cases e)
  show ?case
  proof (cases "\<not> f \<and> \<not> entry_claimed reg a")
    case True
    from Cons.IH [of "AList.delete a reg"] obtain P
      where "remove_not_found status (AList.delete a reg) = filter P (AList.delete a reg)" ..
    moreover have "AList.delete a reg = filter (\<lambda>x. fst x \<noteq> a) reg"
      by (simp add: AList.delete_eq case_prod_unfold eq_commute)
    ultimately have "remove_not_found (e # status) reg = filter (\<lambda>x. fst x \<noteq> a \<and> P x) reg"
      using True by (simp add: e)
    then show ?thesis by blast
  next
    case False
    with Cons.IH [of reg] show ?thesis by (auto simp: e)
  qed
qed

lemma set_map_assign_new:
  "k \<notin> fst ` set xs \<Longrightarrow> set (map_assign k v xs) = insert (k, v) (set xs)"
  by (induction xs) (auto split: if_splits)

lemma distinct_map_assign_new:
  "k \<notin> fst ` set xs \<Longrightarrow> f (k, v) \<notin> f ` set xs \<Longrightarrow> distinct (map f xs)
   \<Longrightarrow> distinct (map f (map_assign k v xs))"
proof (induction xs)
  case Nil
  then show ?case by simp
next
  case (Cons e xs)
  obtain a b where e: "e = (a, b)" by (cases e)
  from Cons.prems have ne: "k \<noteq> a" and k: "k \<notin> fst ` set xs" by (auto simp: e)
  from Cons.prems have fk: "f (k, v) \<notin> f ` set xs" and fne: "f (k, v) \<noteq> f (a, b)"
    and d: "distinct (map f xs)" and fa: "f (a, b) \<notin> f ` set xs"
    by (auto simp: e)
  have "set (map_assign k v xs) = insert (k, v) (set xs)"
    using k by (rule set_map_assign_new)
  with fa fne have "f (a, b) \<notin> f ` set (map_assign k v xs)" by auto
  with Cons.IH [OF k fk d] Cons.prems ne show ?case by (auto simp: e)
qed

lemma unat_succ_32: "unat (n :: 32 word) + 1 < 2 ^ 32 \<Longrightarrow> unat (n + 1) = unat n + 1"
  using unat_add_lem [of n 1] by simp

lemma visit_unsupported:
  "\<not> supported u \<Longrightarrow> visit_device u st = st"
  by (simp add: visit_device_def split: prod.splits)

lemma visit_known:
  "supported u \<Longrightarrow> find_known (dev_ptr u) reg = Some k
   \<Longrightarrow> visit_device u (reg, status, n) = (reg, map_assign k True status, n)"
  by (simp add: visit_device_def)

lemma visit_new:
  "supported u \<Longrightarrow> find_known (dev_ptr u) reg = None
   \<Longrightarrow> visit_device u (reg, status, n)
         = (map_assign n (new_connected_device n u) reg, status, n + 1)"
  by (simp add: visit_device_def generate_id_def)

lemma visit_cases:
  obtains (skip) "\<not> supported u"
      "visit_device u (reg, status, n) = (reg, status, n)"
  | (known) k where "supported u"
      "find_known (dev_ptr u) reg = Some k"
      "visit_device u (reg, status, n) = (reg, map_assign k True status, n)"
  | (new) "supported u"
      "find_known (dev_ptr u) reg = None"
      "visit_device u (reg, status, n)
         = (map_assign n (new_connected_device n u) reg, status, n + 1)"
  using visit_unsupported visit_known visit_new by (cases "find_known (dev_ptr u) reg") blast+

lemma fresh_key:
  "list_all (\<lambda>e. unat (fst e) < unat n) reg \<Longrightarrow> n \<notin> fst ` set reg"
  by (auto simp: list_all_iff)

lemma scan_ok_visit:
  assumes "scan_ok (Suc m) st"
  shows "scan_ok m (visit_device u st)"
proof -
  obtain reg status n where st: "st = (reg, status, n)" by (cases st)
  from assms have srt: "sorted_wrt (<) (map fst reg)"
    and dst: "distinct (map (\<lambda>e. device (snd e)) reg)"
    and low: "list_all (\<lambda>e. unat (fst e) < unat n) reg"
    and cnt: "unat n + Suc m < 2 ^ 32"
    by (simp_all add: scan_ok_def st)
  show ?thesis
  proof (cases u reg status n rule: visit_cases)
    case skip
    with assms show ?thesis by (simp add: st scan_ok_def)
  next
    case (known k)
    with assms show ?thesis by (simp add: st scan_ok_def)
  next
    case new
    let ?v = "new_connected_device n u"
    have nk: "n \<notin> fst ` set reg" using low by (rule fresh_key)
    have un: "unat (n + 1) = unat n + 1" using cnt by (intro unat_succ_32) simp
    have "device ?v \<notin> (\<lambda>e. device (snd e)) ` set reg"
      using new(2) by (auto simp: find_known_None new_connected_device_def)
    then have "distinct (map (\<lambda>e. device (snd e)) (map_assign n ?v reg))"
      using nk dst by (intro distinct_map_assign_new) auto
    moreover have "sorted_wrt (<) (map fst (map_assign n ?v reg))"
      using srt by (rule sorted_map_assign)
    moreover have "list_all (\<lambda>e. unat (fst e) < unat (n + 1)) (map_assign n ?v reg)"
      using low nk by (auto simp: list_all_iff set_map_assign_new un)
    moreover have "unat (n + 1) + m < 2 ^ 32" using cnt un by simp
    ultimately show ?thesis by (simp add: st new(3) scan_ok_def)
  qed
qed

lemma scan_ok_scan: "scan_ok (length us + m) st \<Longrightarrow> scan_ok m (scan_devices us st)"
proof (induction us arbitrary: st)
  case Nil
  then show ?case by simp
next
  case (Cons u us)
  from Cons.prems have "scan_ok (Suc (length us + m)) st" by simp
  then have "scan_ok (length us + m) (visit_device u st)" by (rule scan_ok_visit)
  then show ?case by (simp add: Cons.IH)
qed

lemma visit_keeps:
  assumes "scan_ok (Suc m) st" and "map_of (fst st) k = Some d"
  shows "map_of (fst (visit_device u st)) k = Some d"
proof -
  obtain reg status n where st: "st = (reg, status, n)" by (cases st)
  from assms(1) have "list_all (\<lambda>e. unat (fst e) < unat n) reg" by (simp add: scan_ok_def st)
  then have "n \<notin> fst ` set reg" by (rule fresh_key)
  moreover from assms(2) have "k \<in> fst ` set reg"
    by (metis st fst_conv domI dom_map_of_conv_image_fst)
  ultimately have "k \<noteq> n" by blast
  then show ?thesis
    using assms(2) by (cases u reg status n rule: visit_cases) (simp_all add: st map_of_map_assign)
qed

lemma scan_keeps:
  "scan_ok (length us + m) st \<Longrightarrow> map_of (fst st) k = Some d
   \<Longrightarrow> map_of (fst (scan_devices us st)) k = Some d"
proof (induction us arbitrary: st)
  case Nil
  then show ?case by simp
next
  case (Cons u us)
  from Cons.prems have ok: "scan_ok (Suc (length us + m)) st" by simp
  then have "scan_ok (length us + m) (visit_device u st)" by (rule scan_ok_visit)
  moreover have "map_of (fst (visit_device u st)) k = Some d"
    using ok Cons.prems(2) by (rule visit_keeps)
  ultimately show ?case by (simp add: Cons.IH)
qed

lemma visit_status_False:
  assumes "map_of (fst (snd (visit_device u st))) k = Some False"
  shows "map_of (fst (snd st)) k = Some False"
proof -
  obtain reg status n where st: "st = (reg, status, n)" by (cases st)
  show ?thesis
    using assms
    by (cases u reg status n rule: visit_cases)
       (auto simp: st map_of_map_assign split: if_splits)
qed

lemma scan_status_False:
  "map_of (fst (snd (scan_devices us st))) k = Some False \<Longrightarrow> map_of (fst (snd st)) k = Some False"
proof (induction us arbitrary: st)
  case Nil
  then show ?case by simp
next
  case (Cons u us)
  from Cons.prems have "map_of (fst (snd (scan_devices us (visit_device u st)))) k = Some False"
    by simp
  then have "map_of (fst (snd (visit_device u st))) k = Some False" by (rule Cons.IH)
  then show ?case by (rule visit_status_False)
qed

lemma visit_status_sorted:
  assumes "sorted_wrt (<) (map fst (fst (snd st)))"
  shows "sorted_wrt (<) (map fst (fst (snd (visit_device u st))))"
proof -
  obtain reg status n where st: "st = (reg, status, n)" by (cases st)
  show ?thesis
    using assms
    by (cases u reg status n rule: visit_cases) (simp_all add: st sorted_map_assign)
qed

lemma scan_status_sorted:
  "sorted_wrt (<) (map fst (fst (snd st)))
   \<Longrightarrow> sorted_wrt (<) (map fst (fst (snd (scan_devices us st))))"
proof (induction us arbitrary: st)
  case Nil
  then show ?case by simp
next
  case (Cons u us)
  from Cons.prems have "sorted_wrt (<) (map fst (fst (snd (visit_device u st))))"
    by (rule visit_status_sorted)
  then have "sorted_wrt (<) (map fst (fst (snd (scan_devices us (visit_device u st)))))"
    by (rule Cons.IH)
  then show ?case by simp
qed

lemma visit_origin:
  assumes "map_of (fst (visit_device u st)) k = Some d"
  shows "map_of (fst st) k = Some d \<or> (supported u \<and> d = new_connected_device k u)"
proof -
  obtain reg status n where st: "st = (reg, status, n)" by (cases st)
  show ?thesis
    using assms
    by (cases u reg status n rule: visit_cases)
       (auto simp: st map_of_map_assign split: if_splits)
qed

lemma scan_origin:
  "map_of (fst (scan_devices us st)) k = Some d
   \<Longrightarrow> map_of (fst st) k = Some d \<or> (\<exists>u\<in>set us. supported u \<and> d = new_connected_device k u)"
proof (induction us arbitrary: st)
  case Nil
  then show ?case by simp
next
  case (Cons u us)
  from Cons.prems have "map_of (fst (scan_devices us (visit_device u st))) k = Some d" by simp
  from Cons.IH [OF this] visit_origin [of u st k d] show ?case by auto
qed

lemma visit_marks:
  assumes dk: "distinct (map fst (fst st))"
    and dh: "distinct (map (\<lambda>e. device (snd e)) (fst st))"
    and ent: "map_of (fst st) k = Some d"
  shows "map_of (fst (snd (visit_device u st))) k
           = (if supported u \<and> dev_ptr u = device d then Some True else map_of (fst (snd st)) k)"
proof -
  obtain reg status n where st: "st = (reg, status, n)" by (cases st)
  note dk = dk [unfolded st fst_conv] and dh = dh [unfolded st fst_conv]
  from ent dk have mem: "(k, d) \<in> set reg" by (simp add: st)
  show ?thesis
  proof (cases u reg status n rule: visit_cases)
    case skip
    then show ?thesis by (simp add: st)
  next
    case (known k')
    show ?thesis
    proof (cases "dev_ptr u = device d")
      case True
      with dh mem have "find_known (dev_ptr u) reg = Some k"
        by (intro find_known_unique) auto
      with known(2) have "k' = k" by simp
      with known True show ?thesis by (simp add: st map_of_map_assign)
    next
      case False
      from known(2) obtain d' where d': "(k', d') \<in> set reg" "device d' = dev_ptr u"
        by (auto dest: find_known_Some)
      have "k' \<noteq> k"
      proof
        assume "k' = k"
        with d' dk have "map_of reg k = Some d'" by simp
        with ent have "d' = d" by (simp add: st)
        with d' False show False by simp
      qed
      with known False show ?thesis by (simp add: st map_of_map_assign)
    qed
  next
    case new
    from new(2) mem have "dev_ptr u \<noteq> device d" by (auto simp: find_known_None)
    with new show ?thesis by (simp add: st)
  qed
qed

lemma seen_on_bus_Cons:
  "seen_on_bus (u # us) d \<longleftrightarrow> (supported u \<and> dev_ptr u = device d) \<or> seen_on_bus us d"
  by (simp add: seen_on_bus_def)

lemma scan_marks:
  "scan_ok (length us + m) st \<Longrightarrow> map_of (fst st) k = Some d
   \<Longrightarrow> map_of (fst (snd (scan_devices us st))) k
         = (if seen_on_bus us d then Some True else map_of (fst (snd st)) k)"
proof (induction us arbitrary: st)
  case Nil
  then show ?case by (simp add: seen_on_bus_def)
next
  case (Cons u us)
  from Cons.prems have ok: "scan_ok (Suc (length us + m)) st" by simp
  then have ok1: "scan_ok (length us + m) (visit_device u st)" by (rule scan_ok_visit)
  have ent1: "map_of (fst (visit_device u st)) k = Some d"
    using ok Cons.prems(2) by (rule visit_keeps)
  have "map_of (fst (snd (scan_devices us (visit_device u st)))) k
          = (if seen_on_bus us d then Some True else map_of (fst (snd (visit_device u st))) k)"
    using ok1 ent1 by (rule Cons.IH)
  also have "map_of (fst (snd (visit_device u st))) k
          = (if supported u \<and> dev_ptr u = device d then Some True else map_of (fst (snd st)) k)"
    using ok Cons.prems(2)
    by (intro visit_marks) (simp_all add: scan_ok_def sorted_keys_distinct split: prod.splits)
  finally show ?case by (auto simp: seen_on_bus_Cons)
qed

lemma visit_registers:
  assumes ok: "scan_ok (Suc m) st" and sup: "supported u"
  shows "\<exists>k d. map_of (fst (visit_device u st)) k = Some d \<and> device d = dev_ptr u"
proof -
  obtain reg status n where st: "st = (reg, status, n)" by (cases st)
  from ok have dk: "distinct (map fst reg)"
    by (simp add: scan_ok_def st sorted_keys_distinct)
  show ?thesis
  proof (cases u reg status n rule: visit_cases)
    case skip
    with sup show ?thesis by simp
  next
    case (known k)
    from known(2) obtain d where "(k, d) \<in> set reg" "device d = dev_ptr u"
      by (auto dest: find_known_Some)
    with dk known(3) show ?thesis by (auto simp: st)
  next
    case new
    have "map_of (map_assign n (new_connected_device n u) reg) n = Some (new_connected_device n u)"
      by (simp add: map_of_map_assign)
    moreover have "device (new_connected_device n u) = dev_ptr u"
      by (simp add: new_connected_device_def)
    ultimately show ?thesis using new(3) by (auto simp: st)
  qed
qed

lemma scan_registers:
  "scan_ok (length us + m) st \<Longrightarrow> u \<in> set us \<Longrightarrow> supported u
   \<Longrightarrow> \<exists>k d. map_of (fst (scan_devices us st)) k = Some d \<and> device d = dev_ptr u"
proof (induction us arbitrary: st)
  case Nil
  then show ?case by simp
next
  case (Cons v us)
  from Cons.prems have ok: "scan_ok (Suc (length us + m)) st" by simp
  then have ok1: "scan_ok (length us + m) (visit_device v st)" by (rule scan_ok_visit)
  show ?case
  proof (cases "u = v")
    case True
    from visit_registers [OF ok Cons.prems(3)] obtain k d
      where kd: "map_of (fst (visit_device v st)) k = Some d" "device d = dev_ptr u"
      unfolding True by blast
    moreover from ok1 kd(1) have "map_of (fst (scan_devices us (visit_device v st))) k = Some d"
      by (rule scan_keeps)
    ultimately show ?thesis by auto
  next
    case False
    with Cons.prems have "u \<in> set us" by simp
    from Cons.IH [OF ok1 this Cons.prems(3)] show ?thesis by simp
  qed
qed

lemma scan_bus_locked [simp]:
  "scan_bus bus (s\<lparr>m_connected_devices_mutex := b\<rparr>) = scan_bus bus s"
  "scan_bus bus (s\<lparr>m_libusb_mutex := b\<rparr>) = scan_bus bus s"
  by (simp_all add: scan_bus_def)

lemma refresh_registry:
  "m_libusb_init s \<Longrightarrow>
   m_connected_devices (refresh_device_list bus s)
     = remove_not_found (fst (snd (scan_bus bus s))) (fst (scan_bus bus s))"
  by (simp add: refresh_device_list_def Let_def accessor_defs split: prod.splits)

lemma refresh_next_id:
  "m_libusb_init s \<Longrightarrow> next_id (refresh_device_list bus s) = snd (snd (scan_bus bus s))"
  by (simp add: refresh_device_list_def Let_def accessor_defs split: prod.splits)

lemma refresh_init [simp]:
  "m_libusb_init (refresh_device_list bus s) = m_libusb_init s"
  by (simp add: refresh_device_list_def Let_def accessor_defs split: prod.splits)

lemma scan_bus_ok:
  "registry_ok s \<Longrightarrow> ids_fresh (length bus + m) s \<Longrightarrow> scan_ok m (scan_bus bus s)"
  unfolding scan_bus_def
  by (rule scan_ok_scan) (simp add: scan_ok_def registry_ok_def ids_fresh_def)

lemma scan_bus_start_ok:
  "registry_ok s \<Longrightarrow> ids_fresh (length bus + m) s
   \<Longrightarrow> scan_ok (length bus + m)
         (m_connected_devices s, mark_not_found (m_connected_devices s), next_id s)"
  by (simp add: scan_ok_def registry_ok_def ids_fresh_def)

lemma scan_bus_status_distinct: "distinct (map fst (fst (snd (scan_bus bus s))))"
  unfolding scan_bus_def
  by (rule sorted_keys_distinct, rule scan_status_sorted) (simp add: sorted_mark_not_found)

lemma scan_bus_status_False:
  assumes "(k, False) \<in> set (fst (snd (scan_bus bus s)))"
  shows "k \<in> fst ` set (m_connected_devices s)"
proof -
  from assms have "map_of (fst (snd (scan_bus bus s))) k = Some False"
    using scan_bus_status_distinct by simp
  then have "map_of (mark_not_found (m_connected_devices s)) k = Some False"
    unfolding scan_bus_def by (auto dest: scan_status_False)
  then show ?thesis by (simp add: map_of_mark_not_found split: if_splits)
qed

lemma pass_old_entry:
  assumes init: "m_libusb_init s" and ok: "registry_ok s" and fresh: "ids_fresh (length bus) s"
    and ent: "map_of (m_connected_devices s) k = Some d"
  shows "map_of (m_connected_devices (refresh_device_list bus s)) k
           = (if \<not> seen_on_bus bus d \<and> \<not> claimed d then None else Some d)"
proof -
  let ?st = "(m_connected_devices s, mark_not_found (m_connected_devices s), next_id s)"
  have start: "scan_ok (length bus + 0) ?st"
    using ok fresh by (intro scan_bus_start_ok) simp_all
  have kept: "map_of (fst (scan_bus bus s)) k = Some d"
    unfolding scan_bus_def using start by (rule scan_keeps) (simp add: ent)
  from ent have key: "k \<in> fst ` set (m_connected_devices s)"
    by (metis domI dom_map_of_conv_image_fst)
  have "map_of (fst (snd (scan_bus bus s))) k
          = (if seen_on_bus bus d then Some True else map_of (fst (snd ?st)) k)"
    unfolding scan_bus_def using start by (rule scan_marks) (simp add: ent)
  then have mark: "map_of (fst (snd (scan_bus bus s))) k = Some (seen_on_bus bus d)"
    using key by (simp add: map_of_mark_not_found)
  have "((k, False) \<in> set (fst (snd (scan_bus bus s))))
          = (map_of (fst (snd (scan_bus bus s))) k = Some False)"
    by (rule map_of_eq_Some_iff [OF scan_bus_status_distinct, symmetric])
  also have "\<dots> = (\<not> seen_on_bus bus d)"
    unfolding mark by simp
  finally show ?thesis
    using kept by (simp add: refresh_registry [OF init] map_of_remove_not_found entry_claimed_def)
qed

lemma pass_new_kept:
  assumes "map_of (m_connected_devices s) k = None"
  shows "map_of (remove_not_found (fst (snd (scan_bus bus s))) (fst (scan_bus bus s))) k
           = map_of (fst (scan_bus bus s)) k"
proof -
  from assms have "k \<notin> fst ` set (m_connected_devices s)"
    by (simp add: map_of_eq_None_iff)
  then have "(k, False) \<notin> set (fst (snd (scan_bus bus s)))"
    using scan_bus_status_False by blast
  then show ?thesis by (simp add: map_of_remove_not_found)
qed

lemma pass_entry_origin:
  assumes init: "m_libusb_init s"
    and ent: "map_of (m_connected_devices (refresh_device_list bus s)) k = Some d"
  shows "map_of (m_connected_devices s) k = Some d
         \<or> (\<exists>u\<in>set bus. supported u \<and> d = new_connected_device k u)"
proof -
  from ent have "map_of (fst (scan_bus bus s)) k = Some d"
    by (simp add: refresh_registry [OF init] map_of_remove_not_found split: if_splits)
  then show ?thesis
    unfolding scan_bus_def by (auto dest: scan_origin)
qed

lemma pass_entry_seen_or_claimed:
  assumes init: "m_libusb_init s" and ok: "registry_ok s" and fresh: "ids_fresh (length bus) s"
    and ent: "map_of (m_connected_devices (refresh_device_list bus s)) k = Some d"
  shows "seen_on_bus bus d \<or> claimed d"
proof -
  from pass_entry_origin [OF init ent] show ?thesis
  proof
    assume old: "map_of (m_connected_devices s) k = Some d"
    from pass_old_entry [OF init ok fresh old] ent show ?thesis
      by (auto split: if_splits)
  next
    assume "\<exists>u\<in>set bus. supported u \<and> d = new_connected_device k u"
    then have "seen_on_bus bus d"
      by (auto simp: seen_on_bus_def list_ex_iff new_connected_device_def)
    then show ?thesis ..
  qed
qed

lemma pass_registers:
  assumes init: "m_libusb_init s" and ok: "registry_ok s" and fresh: "ids_fresh (length bus) s"
    and u: "u \<in> set bus" "supported u"
  shows "\<exists>k d. map_of (m_connected_devices (refresh_device_list bus s)) k = Some d
               \<and> device d = dev_ptr u"
proof -
  let ?st = "(m_connected_devices s, mark_not_found (m_connected_devices s), next_id s)"
  have start: "scan_ok (length bus + 0) ?st"
    using ok fresh by (intro scan_bus_start_ok) simp_all
  from scan_registers [OF start u] obtain k d
    where kd: "map_of (fst (scan_bus bus s)) k = Some d" "device d = dev_ptr u"
    unfolding scan_bus_def by blast
  have seen: "seen_on_bus bus d"
    using u kd(2) by (auto simp: seen_on_bus_def list_ex_iff)
  have "map_of (m_connected_devices (refresh_device_list bus s)) k = Some d"
  proof (cases "map_of (m_connected_devices s) k")
    case None
    then show ?thesis by (simp add: refresh_registry [OF init] pass_new_kept kd)
  next
    case (Some d0)
    have "map_of (fst (scan_bus bus s)) k = Some d0"
      unfolding scan_bus_def using start by (rule scan_keeps) (simp add: Some)
    with kd have "d0 = d" by simp
    with pass_old_entry [OF init ok fresh Some] seen show ?thesis by simp
  qed
  with kd(2) show ?thesis by blast
qed

lemma scan_known:
  assumes "\<forall>u\<in>set us. supported u \<longrightarrow> find_known (dev_ptr u) reg \<noteq> None"
    and "distinct (map fst reg)" and "distinct (map (\<lambda>e. device (snd e)) reg)"
  shows "fst (scan_devices us (reg, status, n)) = reg
       \<and> snd (snd (scan_devices us (reg, status, n))) = n
       \<and> (\<forall>k d. map_of reg k = Some d \<longrightarrow>
            map_of (fst (snd (scan_devices us (reg, status, n)))) k
              = (if seen_on_bus us d then Some True else map_of status k))"
  using assms(1)
proof (induction us arbitrary: status)
  case Nil
  then show ?case by (simp add: seen_on_bus_def)
next
  case (Cons u us)
  obtain status1 where v: "visit_device u (reg, status, n) = (reg, status1, n)"
    using Cons.prems by (cases u reg status n rule: visit_cases) auto
  have m: "map_of status1 k
             = (if supported u \<and> dev_ptr u = device d then Some True else map_of status k)"
    if "map_of reg k = Some d" for k d
    using visit_marks [of "(reg, status, n)" k d u] assms(2,3) that by (simp add: v)
  from Cons.prems have "\<forall>u\<in>set us. supported u \<longrightarrow> find_known (dev_ptr u) reg \<noteq> None"
    by simp
  from Cons.IH [OF this, of status1] m show ?case
    by (auto simp: v seen_on_bus_Cons)
qed

lemma sorted_keys_filter:
  fixes xs :: "('k::linorder \<times> 'v) list"
  shows "sorted_wrt (<) (map fst xs) \<Longrightarrow> sorted_wrt (<) (map fst (filter P xs))"
  by (simp add: sorted_wrt_map sorted_wrt_filter)

lemma refresh_preserves:
  assumes init: "m_libusb_init s" and ok: "registry_ok s"
    and fresh: "ids_fresh (length bus + m) s"
  shows "registry_ok (refresh_device_list bus s) \<and> ids_fresh m (refresh_device_list bus s)"
proof -
  obtain reg status n where sb: "scan_bus bus s = (reg, status, n)" by (cases "scan_bus bus s")
  from scan_bus_ok [OF ok fresh] have srt: "sorted_wrt (<) (map fst reg)"
    and dst: "distinct (map (\<lambda>e. device (snd e)) reg)"
    and low: "list_all (\<lambda>e. unat (fst e) < unat n) reg"
    and cnt: "unat n + m < 2 ^ 32"
    by (simp_all add: scan_ok_def sb)
  obtain P where P: "remove_not_found status reg = filter P reg"
    using remove_not_found_filter by blast
  have "sorted_wrt (<) (map fst (filter P reg))" using srt by (rule sorted_keys_filter)
  moreover have "distinct (map (\<lambda>e. device (snd e)) (filter P reg))"
    using dst by (rule distinct_map_filter)
  moreover have "list_all (\<lambda>e. unat (fst e) < unat n) (filter P reg)"
    using low by (simp add: list_all_iff)
  ultimately show ?thesis
    using cnt
    by (simp add: registry_ok_def ids_fresh_def refresh_registry [OF init]
        refresh_next_id [OF init] sb P)
qed

lemma refresh_mutexes:
  "m_libusb_mutex (refresh_device_list bus s) = False"
  "m_libusb_init s \<Longrightarrow> m_connected_devices_mutex (refresh_device_list bus s) = False"
  by (simp_all add: refresh_device_list_def Let_def accessor_defs split: prod.splits)

lemma refresh_again:
  assumes init: "m_libusb_init s" and ok: "registry_ok s" and fresh: "ids_fresh (length bus) s"
  shows "refresh_device_list bus (refresh_device_list bus s) = refresh_device_list bus s"
proof -
  let ?s = "refresh_device_list bus s"
  let ?reg = "m_connected_devices ?s"
  have init': "m_libusb_init ?s" using init by simp
  from refresh_preserves [OF init ok, of bus 0] fresh have ok': "registry_ok ?s" by simp
  then have dk: "distinct (map fst ?reg)" and dh: "distinct (map (\<lambda>e. device (snd e)) ?reg)"
    by (simp_all add: registry_ok_def sorted_keys_distinct)
  have known: "\<forall>u\<in>set bus. supported u \<longrightarrow> find_known (dev_ptr u) ?reg \<noteq> None"
  proof (intro ballI impI)
    fix u assume "u \<in> set bus" "supported u"
    from pass_registers [OF init ok fresh this] obtain k d
      where "map_of ?reg k = Some d" "device d = dev_ptr u" by blast
    then have "(k, d) \<in> set ?reg" by (auto dest: map_of_SomeD)
    with \<open>device d = dev_ptr u\<close> have "\<exists>e\<in>set ?reg. device (snd e) = dev_ptr u"
      by force
    then show "find_known (dev_ptr u) ?reg \<noteq> None"
      unfolding find_known_None by blast
  qed
  note sk = scan_known [OF known dk dh, of "mark_not_found ?reg" "next_id ?s", folded scan_bus_def]
  have "\<forall>e\<in>set (fst (snd (scan_bus bus ?s))). snd e \<or> entry_claimed ?reg (fst e)"
  proof
    fix e assume e: "e \<in> set (fst (snd (scan_bus bus ?s)))"
    obtain k f where kf: "e = (k, f)" by (cases e)
    show "snd e \<or> entry_claimed ?reg (fst e)"
    proof (cases f)
      case True
      then show ?thesis by (simp add: kf)
    next
      case False
      with e kf have mem: "(k, False) \<in> set (fst (snd (scan_bus bus ?s)))" by simp
      then have "k \<in> fst ` set ?reg" by (rule scan_bus_status_False)
      then obtain d where d: "map_of ?reg k = Some d"
        by (metis domD dom_map_of_conv_image_fst)
      from mem have "map_of (fst (snd (scan_bus bus ?s))) k = Some False"
        using scan_bus_status_distinct by simp
      with sk d have "\<not> seen_on_bus bus d" by (auto split: if_splits)
      with pass_entry_seen_or_claimed [OF init ok fresh d] have "claimed d" by simp
      with d show ?thesis by (simp add: kf entry_claimed_def)
    qed
  qed
  then have "remove_not_found (fst (snd (scan_bus bus ?s))) ?reg = ?reg"
    by (rule remove_not_found_same)
  with sk have reg: "m_connected_devices (refresh_device_list bus ?s) = ?reg"
    and nid: "next_id (refresh_device_list bus ?s) = next_id ?s"
    by (simp_all add: refresh_registry [OF init'] refresh_next_id [OF init'])
  have "refresh_device_list bus ?s
          = ?s\<lparr>m_connected_devices := m_connected_devices (refresh_device_list bus ?s),
               next_id := next_id (refresh_device_list bus ?s),
               m_connected_devices_mutex := False, m_libusb_mutex := False\<rparr>"
    using init'
    by (subst (1) refresh_device_list_def)
       (simp add: Let_def accessor_defs refresh_registry [OF init'] refresh_next_id [OF init']
          split: prod.splits)
  also have "\<dots> = ?s"
    using init by (simp add: reg nid refresh_mutexes)
  finally show ?thesis .
qed

lemma ids_fresh_mono: "ids_fresh n s \<Longrightarrow> m \<le> n \<Longrightarrow> ids_fresh m s"
  by (simp add: ids_fresh_def)

lemma passes_keep_claimed:
  "m_libusb_init s \<Longrightarrow> registry_ok s \<Longrightarrow> ids_fresh (sum_list (map length buses)) s
   \<Longrightarrow> map_of (m_connected_devices s) k = Some d \<Longrightarrow> claimed d
   \<Longrightarrow> map_of (m_connected_devices (refresh_passes buses s)) k = Some d"
proof (induction buses arbitrary: s)
  case Nil
  then show ?case by simp
next
  case (Cons bus buses)
  from Cons.prems(3) have fr: "ids_fresh (length bus + sum_list (map length buses)) s" by simp
  then have fr1: "ids_fresh (length bus) s" by (rule ids_fresh_mono) simp
  from refresh_preserves [OF Cons.prems(1,2) fr]
  have ok': "registry_ok (refresh_device_list bus s)"
    and fr': "ids_fresh (sum_list (map length buses)) (refresh_device_list bus s)"
    by simp_all
  have "map_of (m_connected_devices (refresh_device_list bus s)) k = Some d"
    using pass_old_entry [OF Cons.prems(1,2) fr1 Cons.prems(4)] Cons.prems(5) by simp
  with Cons.IH [OF _ ok' fr' _ Cons.prems(5)] Cons.prems(1) show ?case by simp
qed

lemma map_entry_keys: "map fst (AList.map_entry k f xs) = map fst xs"
  by (induction xs) auto

lemma map_entry_handles:
  "map (\<lambda>e. device (snd e)) (AList.map_entry k (\<lambda>e. e\<lparr>claimed := b\<rparr>) xs)
     = map (\<lambda>e. device (snd e)) xs"
  by (induction xs) auto

lemma keys_below:
  "list_all (\<lambda>e. unat (fst e) < unat n) xs \<longleftrightarrow> (\<forall>k\<in>set (map fst xs). unat k < unat n)"
  by (auto simp: list_all_iff)

lemma release_state:
  assumes "map_of (m_connected_devices s) k = Some d"
  shows "m_connected_devices (snd (release_device k s))
           = AList.map_entry k (\<lambda>e. e\<lparr>claimed := False\<rparr>) (m_connected_devices s)"
    and "next_id (snd (release_device k s)) = next_id s"
    and "m_libusb_init (snd (release_device k s)) = m_libusb_init s"
  using assms by (simp_all add: release_device_def accessor_defs)

lemma release_preserves:
  assumes ent: "map_of (m_connected_devices s) k = Some d"
    and ok: "registry_ok s" and fresh: "ids_fresh n s"
  shows "registry_ok (snd (release_device k s))" and "ids_fresh n (snd (release_device k s))"
    and "map_of (m_connected_devices (snd (release_device k s))) k = Some (d\<lparr>claimed := False\<rparr>)"
proof -
  show "registry_ok (snd (release_device k s))"
    using ok by (simp add: registry_ok_def release_state [OF ent] map_entry_keys map_entry_handles)
  have "list_all (\<lambda>e. unat (fst e) < unat (next_id s))
          (AList.map_entry k (\<lambda>e. e\<lparr>claimed := False\<rparr>) (m_connected_devices s))
        = list_all (\<lambda>e. unat (fst e) < unat (next_id s)) (m_connected_devices s)"
    unfolding keys_below map_entry_keys ..
  then show "ids_fresh n (snd (release_device k s))"
    using fresh by (simp add: ids_fresh_def release_state [OF ent])
  show "map_of (m_connected_devices (snd (release_device k s))) k = Some (d\<lparr>claimed := False\<rparr>)"
    using ent by (simp add: release_state [OF ent] map_of_map_entry)
qed

lemmas fixture_defs =
  ngp_linkmasta_def usb_keyboard_def started_manager_def claimed_entry_def free_entry_def
  busy_manager_def new_connected_device_def build_linkmasta_device_def

lemma supported_fixtures: "supported ngp_linkmasta" "\<not> supported usb_keyboard"
  by (simp_all add: fixture_defs is_supported_def)

lemma busy_manager_ok:
  "m_libusb_init busy_manager" "registry_ok busy_manager" "ids_fresh 3 busy_manager"
  "map_of (m_connected_devices busy_manager) 0 = Some claimed_entry"
  "map_of (m_connected_devices busy_manager) 1 = Some free_entry"
  by (simp_all add: fixture_defs registry_ok_def ids_fresh_def)

lemma chip_run_mode:
  "m_mode c = ERASE \<or> m_mode c = READ \<Longrightarrow>
   m_mode (chip_run calls c)
     = (if Test_Erasing True \<in> set calls then READ else m_mode c)"
proof (induction calls arbitrary: c)
  case Nil
  then show ?case by simp
next
  case (Cons call calls)
  show ?case
  proof (cases call)
    case Is_Erasing
    with Cons show ?thesis by simp
  next
    case Current_Mode
    with Cons show ?thesis by simp
  next
    case (Test_Erasing completed)
    with Cons.prems Cons.IH [of "snd (test_erasing completed c)"] show ?thesis
      by (cases completed) (auto simp: test_erasing_def)
  qed
qed





section \<open>The claims\<close>

text \<open>
  C1. For a registered id, \<open>try_claim_device\<close> tests and sets the flag under the
  registry mutex: it returns true exactly when the entry was unclaimed before the call,
  and leaves the entry claimed (and otherwise as it was) in both cases. A second call
  right after the first returns false, so of two consecutive calls on an unclaimed id
  exactly the first returns true.
\<close>

theorem try_claim_device_test_and_set:
  assumes "map_of (m_connected_devices s) i = Some d"
  shows "fst (try_claim_device i s) = Inr (\<not> claimed d)
       \<and> map_of (m_connected_devices (snd (try_claim_device i s))) i
           = Some (d\<lparr>claimed := True\<rparr>)
       \<and> fst (try_claim_device i (snd (try_claim_device i s))) = Inr False"
  using assms by (simp add: try_claim_device_def accessor_defs map_of_map_entry)

text \<open>C1 at the example states.\<close>

theorem try_claim_device_test_and_set_witness:
  "fst (try_claim_device 1 busy_manager) = Inr True
   \<and> fst (try_claim_device 1 (snd (try_claim_device 1 busy_manager))) = Inr False"
  using try_claim_device_test_and_set [OF busy_manager_ok(5)]
  by (simp add: free_entry_def)

text \<open>
  C9. On an id that is not in the registry \<open>try_claim_device\<close> throws the
  unknown-device error and leaves the registry as it is; it does not return false. A
  false return therefore means that the id is registered and its entry was already
  claimed.
\<close>

theorem try_claim_device_not_found:
  "(map_of (m_connected_devices s) i = None
      \<longrightarrow> fst (try_claim_device i s) = Inl (Invalid_Argument i)
          \<and> m_connected_devices (snd (try_claim_device i s)) = m_connected_devices s)
   \<and> (fst (try_claim_device i s) = Inr False
      \<longrightarrow> (\<exists>d. map_of (m_connected_devices s) i = Some d \<and> claimed d))"
  by (auto simp: try_claim_device_def accessor_defs Let_def split: option.splits)

text \<open>C9 at the example states.\<close>

theorem try_claim_device_not_found_witness:
  "fst (try_claim_device 5 busy_manager) = Inl (Invalid_Argument 5)
   \<and> fst (try_claim_device 0 busy_manager) = Inr False
   \<and> (\<exists>d. map_of (m_connected_devices busy_manager) 0 = Some d \<and> claimed d)"
proof -
  have a: "map_of (m_connected_devices busy_manager) 5 = None"
    by (simp add: busy_manager_def started_manager_def)
  have b: "fst (try_claim_device 0 busy_manager) = Inr False"
    by (simp add: try_claim_device_def accessor_defs fixture_defs)
  from try_claim_device_not_found [of busy_manager 5] a
    try_claim_device_not_found [of busy_manager 0] b
  show ?thesis by simp
qed

text \<open>
  C5. On an id that is not in the registry each of the seven accessors (vendor id,
  product id, manufacturer string, product string, serial number, linkmasta device,
  claim state) throws the unknown-device error, and the manager is afterwards exactly
  as it was before the call, the mutex released again.
\<close>

theorem accessors_not_found:
  assumes "map_of (m_connected_devices s) i = None" and "\<not> m_connected_devices_mutex s"
  shows "get_vendor_id i s = (Inl (Invalid_Argument i), s)
       \<and> get_product_id i s = (Inl (Invalid_Argument i), s)
       \<and> get_manufacturer_string i s = (Inl (Invalid_Argument i), s)
       \<and> get_product_string i s = (Inl (Invalid_Argument i), s)
       \<and> get_serial_number i s = (Inl (Invalid_Argument i), s)
       \<and> get_linkmasta_device i s = (Inl (Invalid_Argument i), s)
       \<and> is_device_claimed i s = (Inl (Invalid_Argument i), s)"
  using assms
  by (simp add: get_vendor_id_def get_product_id_def get_manufacturer_string_def
      get_product_string_def get_serial_number_def get_linkmasta_device_def
      is_device_claimed_def accessor_defs)

text \<open>C5 at the example states.\<close>

theorem accessors_not_found_witness:
  "get_vendor_id 5 busy_manager = (Inl (Invalid_Argument 5), busy_manager)
   \<and> get_product_id 5 busy_manager = (Inl (Invalid_Argument 5), busy_manager)
   \<and> get_manufacturer_string 5 busy_manager = (Inl (Invalid_Argument 5), busy_manager)
   \<and> get_product_string 5 busy_manager = (Inl (Invalid_Argument 5), busy_manager)
   \<and> get_serial_number 5 busy_manager = (Inl (Invalid_Argument 5), busy_manager)
   \<and> get_linkmasta_device 5 busy_manager = (Inl (Invalid_Argument 5), busy_manager)
   \<and> is_device_claimed 5 busy_manager = (Inl (Invalid_Argument 5), busy_manager)"
proof -
  have "map_of (m_connected_devices busy_manager) 5 = None"
    and "\<not> m_connected_devices_mutex busy_manager"
    by (simp_all add: busy_manager_def started_manager_def)
  then show ?thesis by (rule accessors_not_found)
qed

text \<open>
  C2. Let the registry be well formed and the ids of the coming passes be fresh. For an
  entry \<open>d\<close> registered under \<open>k\<close>, a pass over the device list \<open>bus\<close> removes the
  entry if and only if no supported device of \<open>bus\<close> has its native handle and its
  claimed flag is false; an entry that stays is unchanged. A claimed entry is still
  there after the pass and after any further passes \<open>buses\<close>, whatever they see. After
  \<open>release_device\<close> a pass that does not see the device removes the entry.
\<close>

theorem refresh_removes_unseen_unclaimed:
  assumes init: "m_libusb_init s" and ok: "registry_ok s"
    and fresh: "ids_fresh (length bus + sum_list (map length buses)) s"
    and ent: "map_of (m_connected_devices s) k = Some d"
  shows "(map_of (m_connected_devices (refresh_device_list bus s)) k = None
            \<longleftrightarrow> \<not> seen_on_bus bus d \<and> \<not> claimed d)
       \<and> (map_of (m_connected_devices (refresh_device_list bus s)) k \<noteq> None
            \<longrightarrow> map_of (m_connected_devices (refresh_device_list bus s)) k = Some d)
       \<and> (claimed d
            \<longrightarrow> map_of (m_connected_devices (refresh_passes (bus # buses) s)) k = Some d)
       \<and> (\<not> seen_on_bus bus d
            \<longrightarrow> map_of (m_connected_devices
                          (refresh_device_list bus (snd (release_device k s)))) k = None)"
proof -
  from fresh have fr1: "ids_fresh (length bus) s" by (rule ids_fresh_mono) simp
  note one = pass_old_entry [OF init ok fr1 ent]
  have many: "map_of (m_connected_devices (refresh_passes (bus # buses) s)) k = Some d"
    if "claimed d"
    using passes_keep_claimed [of s "bus # buses" k d] init ok fresh ent that by simp
  let ?r = "snd (release_device k s)"
  have rel: "map_of (m_connected_devices (refresh_device_list bus ?r)) k = None"
    if "\<not> seen_on_bus bus d"
  proof -
    have "seen_on_bus bus (d\<lparr>claimed := False\<rparr>) = seen_on_bus bus d"
      by (simp add: seen_on_bus_def)
    with pass_old_entry [of ?r bus k "d\<lparr>claimed := False\<rparr>"]
      release_preserves [OF ent ok fr1] release_state(3) [OF ent] init that
    show ?thesis by simp
  qed
  from one many rel show ?thesis by simp
qed

text \<open>C2 at the example states.\<close>

theorem refresh_removes_unseen_unclaimed_witness:
  "map_of (m_connected_devices (refresh_device_list [usb_keyboard] busy_manager)) 0
     = Some claimed_entry
   \<and> map_of (m_connected_devices
        (refresh_passes [[usb_keyboard], [], [usb_keyboard]] busy_manager)) 0
     = Some claimed_entry
   \<and> map_of (m_connected_devices
        (refresh_device_list [usb_keyboard] (snd (release_device 0 busy_manager)))) 0 = None"
proof -
  have fr: "ids_fresh (length [usb_keyboard] + sum_list (map length [[], [usb_keyboard]]))
              busy_manager"
    using busy_manager_ok(3) by (rule ids_fresh_mono) simp
  have c: "claimed claimed_entry" by (simp add: claimed_entry_def)
  have u: "\<not> seen_on_bus [usb_keyboard] claimed_entry"
    by (simp add: seen_on_bus_def supported_fixtures)
  from refresh_removes_unseen_unclaimed [OF busy_manager_ok(1,2) fr busy_manager_ok(4)] c u
  show ?thesis by simp
qed



text \<open>
  C7. Let the registry be well formed and the ids of the pass be fresh, and let \<open>u\<close> be
  a device of a list without repeated pointers whose pointer is not yet held by any entry.
  After the pass some entry holds the pointer of \<open>u\<close> if and only if the identifiers of
  \<open>u\<close> pass \<open>is_supported\<close>, and \<open>is_supported\<close> accepts exactly the three pairs
  (0x20A0, 0x4178), (0x20A0, 0x4256) and (0x20A0, 0x4252).
\<close>

theorem refresh_registers_supported_only:
  assumes init: "m_libusb_init s" and ok: "registry_ok s" and fresh: "ids_fresh (length bus) s"
    and u: "u \<in> set bus" and bus: "distinct (map dev_ptr bus)"
    and new: "dev_ptr u \<notin> (\<lambda>e. device (snd e)) ` set (m_connected_devices s)"
  shows "((\<exists>k d. map_of (m_connected_devices (refresh_device_list bus s)) k = Some d
               \<and> device d = dev_ptr u)
          \<longleftrightarrow> supported u)
       \<and> (\<forall>v p. is_supported v p
            \<longleftrightarrow> (v, p) \<in> {(0x20A0, 0x4178), (0x20A0, 0x4256), (0x20A0, 0x4252)})"
proof -
  have "supported u"
    if "map_of (m_connected_devices (refresh_device_list bus s)) k = Some d"
      and "device d = dev_ptr u" for k d
  proof -
    from pass_entry_origin [OF init that(1)] show ?thesis
    proof
      assume "map_of (m_connected_devices s) k = Some d"
      then have "(k, d) \<in> set (m_connected_devices s)" by (rule map_of_SomeD)
      with new that(2) show ?thesis by force
    next
      assume "\<exists>u'\<in>set bus. supported u' \<and> d = new_connected_device k u'"
      then obtain u' where u': "u' \<in> set bus" "supported u'" "d = new_connected_device k u'"
        by blast
      with that(2) have "dev_ptr u' = dev_ptr u" by (simp add: new_connected_device_def)
      with bus u u'(1) have "u' = u" by (auto simp: distinct_map dest: inj_onD)
      with u'(2) show ?thesis by simp
    qed
  qed
  moreover have "\<exists>k d. map_of (m_connected_devices (refresh_device_list bus s)) k = Some d
                   \<and> device d = dev_ptr u" if "supported u"
    using pass_registers [OF init ok fresh u that] .
  moreover have "is_supported v p
      \<longleftrightarrow> (v, p) \<in> {(0x20A0, 0x4178), (0x20A0, 0x4256), (0x20A0, 0x4252)}" for v p
    by (auto simp: is_supported_def)
  ultimately show ?thesis by blast
qed

text \<open>C7 at the example states.\<close>

theorem refresh_registers_supported_only_witness:
  "(\<exists>k d. map_of (m_connected_devices
              (refresh_device_list [ngp_linkmasta, usb_keyboard] started_manager)) k = Some d
          \<and> device d = dev_ptr ngp_linkmasta)
   \<and> \<not> (\<exists>k d. map_of (m_connected_devices
              (refresh_device_list [ngp_linkmasta, usb_keyboard] started_manager)) k = Some d
          \<and> device d = dev_ptr usb_keyboard)"
proof -
  have h: "m_libusb_init started_manager" "registry_ok started_manager"
    "ids_fresh (length [ngp_linkmasta, usb_keyboard]) started_manager"
    "distinct (map dev_ptr [ngp_linkmasta, usb_keyboard])"
    by (simp_all add: fixture_defs registry_ok_def ids_fresh_def)
  have n: "dev_ptr ngp_linkmasta
             \<notin> (\<lambda>e. device (snd e)) ` set (m_connected_devices started_manager)"
    "dev_ptr usb_keyboard
             \<notin> (\<lambda>e. device (snd e)) ` set (m_connected_devices started_manager)"
    by (simp_all add: started_manager_def)
  from refresh_registers_supported_only [OF h(1,2,3) _ h(4) n(1)]
    refresh_registers_supported_only [OF h(1,2,3) _ h(4) n(2)]
  show ?thesis by (simp add: supported_fixtures)
qed

text \<open>
  C6. Let the registry be well formed and the ids of the pass be fresh. A second pass
  over the same device list right after a first one leaves the manager exactly as the
  first pass left it: no entry is added, removed or changed and no id is handed out.
  The keys of the registry are pairwise distinct.
\<close>

theorem refresh_device_list_idempotent:
  assumes "m_libusb_init s" and "registry_ok s" and "ids_fresh (length bus) s"
  shows "refresh_device_list bus (refresh_device_list bus s) = refresh_device_list bus s
       \<and> distinct (map fst (m_connected_devices (refresh_device_list bus s)))"
proof -
  from refresh_preserves [OF assms(1,2), of bus 0] assms(3)
  have "registry_ok (refresh_device_list bus s)" by simp
  then have "distinct (map fst (m_connected_devices (refresh_device_list bus s)))"
    by (simp add: registry_ok_def sorted_keys_distinct)
  with refresh_again [OF assms] show ?thesis by simp
qed

text \<open>C6 at the example states.\<close>

theorem refresh_device_list_idempotent_witness:
  "refresh_device_list [ngp_linkmasta, usb_keyboard]
     (refresh_device_list [ngp_linkmasta, usb_keyboard] busy_manager)
     = refresh_device_list [ngp_linkmasta, usb_keyboard] busy_manager
   \<and> map fst (m_connected_devices
        (refresh_device_list [ngp_linkmasta, usb_keyboard] busy_manager)) = [0]"
proof -
  have fr: "ids_fresh (length [ngp_linkmasta, usb_keyboard]) busy_manager"
    using busy_manager_ok(3) by (rule ids_fresh_mono) simp
  have "map fst (m_connected_devices
          (refresh_device_list [ngp_linkmasta, usb_keyboard] busy_manager)) = [0]"
    by (simp add: refresh_device_list_def scan_bus_def visit_device_def mark_not_found_def
        entry_claimed_def accessor_defs fixture_defs is_supported_def)
  with refresh_device_list_idempotent [OF busy_manager_ok(1,2) fr] show ?thesis by simp
qed

text \<open>
  C4. After \<open>erase_chip\<close> or \<open>erase_block\<close> the belief state is \<open>ERASE\<close>, and
  \<open>is_erasing\<close> holds. After any sequence of calls of \<open>is_erasing\<close>, \<open>current_mode\<close>
  and \<open>test_erasing\<close> the belief state is \<open>READ\<close> if one of the \<open>test_erasing\<close> calls
  polled a completed erase, and still \<open>ERASE\<close> otherwise; in particular it stays
  \<open>ERASE\<close> under calls of \<open>is_erasing\<close> and \<open>current_mode\<close> alone. A single
  \<open>test_erasing\<close> sets it to \<open>READ\<close> exactly when its poll indicates completion.
\<close>

theorem erase_belief_state:
  "current_mode (erase_chip c) = ERASE
   \<and> current_mode (erase_block a c) = ERASE
   \<and> is_erasing (erase_chip c) \<and> is_erasing (erase_block a c)
   \<and> current_mode (chip_run calls (erase_chip c))
       = (if Test_Erasing True \<in> set calls then READ else ERASE)
   \<and> current_mode (chip_run calls (erase_block a c))
       = (if Test_Erasing True \<in> set calls then READ else ERASE)
   \<and> current_mode (snd (test_erasing completed (erase_chip c)))
       = (if completed then READ else ERASE)
   \<and> current_mode (snd (test_erasing completed (erase_block a c)))
       = (if completed then READ else ERASE)"
proof -
  have e: "m_mode (erase_chip c) = ERASE" "m_mode (erase_block a c) = ERASE"
    by (simp_all add: erase_chip_def erase_block_def)
  have "m_mode (chip_run calls (erase_chip c))
          = (if Test_Erasing True \<in> set calls then READ else ERASE)"
    using chip_run_mode [of "erase_chip c" calls] e by simp
  moreover have "m_mode (chip_run calls (erase_block a c))
          = (if Test_Erasing True \<in> set calls then READ else ERASE)"
    using chip_run_mode [of "erase_block a c" calls] e by simp
  ultimately show ?thesis
    using e by (simp add: current_mode_def is_erasing_def test_erasing_def)
qed

end
